theory Spec2Isabelle
  imports Complex_Main
begin

section \<open>The tree-text formatter \<open>formatAST\<close>\<close>

text \<open>
  The only first-party logic of the repository is the function \<^verbatim>\<open>formatAST\<close> of the
  command-line script: a single pass over the serialized syntax tree that tracks the
  nesting depth and emits line breaks and indentation.

  A JavaScript string is a sequence of code units; the function compares them with four
  ASCII characters only and copies every other one unchanged, so a string is modelled as
  a \<^typ>\<open>string\<close>. The depth is an integer (\<^typ>\<open>int\<close>); the loop index is a natural
  number, since the source never takes it below zero. A thrown exception is the left
  summand of the result.
\<close>

subsection \<open>String.prototype.repeat\<close>

datatype error = RangeError

text \<open>
  The count that \<^verbatim>\<open>repeat\<close> is called with is a JavaScript number: a finite one
  (a double, taken here as the real number it stands for), \<^verbatim>\<open>NaN\<close> or an infinity.
  The method first converts it to an integer or an infinity
  (\<^verbatim>\<open>ToIntegerOrInfinity\<close>): \<^verbatim>\<open>NaN\<close> becomes 0, a finite number loses its fraction
  (it is truncated toward zero), an infinity stays.
\<close>

datatype number = Finite real | NaN | PosInfinity | NegInfinity

datatype integer_or_infinity = Integer int | PlusInfinity | MinusInfinity

definition truncate_toward_zero :: "real \<Rightarrow> int" where
  "truncate_toward_zero x = (if x < 0 then - \<lfloor>- x\<rfloor> else \<lfloor>x\<rfloor>)"

fun to_integer_or_infinity :: "number \<Rightarrow> integer_or_infinity" where
  "to_integer_or_infinity NaN = Integer 0"
| "to_integer_or_infinity PosInfinity = PlusInfinity"
| "to_integer_or_infinity NegInfinity = MinusInfinity"
| "to_integer_or_infinity (Finite x) = Integer (truncate_toward_zero x)"

text \<open>
  The engine that runs the script refuses to build a string of more than
  \<open>2 ^ 29 - 24\<close> code units (V8, the engine of Node.js): on it
  \<^verbatim>\<open>'  '.repeat(268435444)\<close> returns and \<^verbatim>\<open>'  '.repeat(268435445)\<close> throws
  \<^verbatim>\<open>RangeError: Invalid string length\<close>.
\<close>

definition max_string_length :: int where
  "max_string_length = 536870888"

text \<open>
  \<^verbatim>\<open>s.repeat(n)\<close> for a count that is the integer \<open>n\<close>: it throws a \<^verbatim>\<open>RangeError\<close>
  for a negative count and for a string longer than the \<open>limit\<close>, and otherwise
  returns \<open>n\<close> copies of \<open>s\<close>. The limit is \<open>Some max_string_length\<close> for a string
  that the function builds and drops, the prefix \<^verbatim>\<open>spaces\<close>. It is \<open>None\<close> for a
  string that is appended to the result, and so is a part of the output no longer than
  the output: the size of the output has no limit in this model.
\<close>

definition repeat :: "int option \<Rightarrow> string \<Rightarrow> int \<Rightarrow> error + string" where
  "repeat limit s n =
     (if n < 0 then Inl RangeError
      else if (case limit of None \<Rightarrow> False | Some m \<Rightarrow> m < int (length s) * n)
        then Inl RangeError
      else Inr (concat (replicate (nat n) s)))"

text \<open>
  \<^verbatim>\<open>s.repeat(count)\<close> for a count that is any number: after the conversion, an
  infinity throws a \<^verbatim>\<open>RangeError\<close> as a negative integer does.
\<close>

definition repeat_number :: "int option \<Rightarrow> string \<Rightarrow> number \<Rightarrow> error + string" where
  "repeat_number limit s count =
     (case to_integer_or_infinity count of
        Integer n \<Rightarrow> repeat limit s n
      | PlusInfinity \<Rightarrow> Inl RangeError
      | MinusInfinity \<Rightarrow> Inl RangeError)"

subsection \<open>The scan\<close>

text \<open>
  The inner loop \<^verbatim>\<open>while (i < ast.length && ast[i] === ' ') i++;\<close> returns the index
  it stops at.
\<close>

function skip_spaces :: "string \<Rightarrow> nat \<Rightarrow> nat" where
  "skip_spaces ast i =
     (if i < length ast \<and> ast ! i = CHR '' '' then skip_spaces ast (i + 1) else i)"
  by pat_completeness auto
termination
  by (relation "measure (\<lambda>(ast, i). length ast - i)") auto

declare skip_spaces.simps [simp del]

text \<open>
  One pass through the body of the \<^verbatim>\<open>for\<close> loop, entered with \<open>i < length ast\<close>. It
  returns the index as the body leaves it (before the loop's own \<^verbatim>\<open>i++\<close>), the depth
  and the result. \<^verbatim>\<open>ast[i - 1]\<close> is \<^verbatim>\<open>undefined\<close> at \<open>i = 0\<close>, which differs from
  the line break. In the branch of the space the inner loop has moved past position
  \<open>i\<close> at least, so that the \<^verbatim>\<open>i--\<close> after it does not go below \<open>i\<close>
  (\<open>skip_spaces_gt\<close>).
\<close>

definition body :: "string \<Rightarrow> nat \<Rightarrow> int \<Rightarrow> string \<Rightarrow> error + (nat \<times> int \<times> string)" where
  "body ast i depth result =
     (let char = ast ! i in
      if char = CHR ''('' then
        (case repeat None ''  '' (depth + 1) of
           Inl e \<Rightarrow> Inl e
         | Inr sp \<Rightarrow> Inr (i, depth + 1, result @ [char] @ [CHR ''\<newline>''] @ sp))
      else if char = CHR '')'' then
        (case repeat None ''  '' (depth - 1) of
           Inl e \<Rightarrow> Inl e
         | Inr sp \<Rightarrow> Inr (i, depth - 1, result @ [CHR ''\<newline>''] @ sp @ [char]))
      else if char = CHR '' '' \<and> \<not> (0 < i \<and> ast ! (i - 1) = CHR ''\<newline>'') then
        (case repeat None ''  '' depth of
           Inl e \<Rightarrow> Inl e
         | Inr sp \<Rightarrow> Inr (skip_spaces ast i - 1, depth, result @ [CHR ''\<newline>''] @ sp))
      else Inr (i, depth, result @ [char]))"

lemma skip_spaces_ge: "i \<le> skip_spaces ast i"
proof (induction ast i rule: skip_spaces.induct)
  case (1 ast i)
  show ?case
  proof (cases "i < length ast \<and> ast ! i = CHR '' ''")
    case True
    with 1 have "i + 1 \<le> skip_spaces ast (i + 1)" by simp
    moreover from True have "skip_spaces ast i = skip_spaces ast (i + 1)"
      by (subst skip_spaces.simps) simp
    ultimately show ?thesis by simp
  next
    case False
    then show ?thesis by (subst skip_spaces.simps) auto
  qed
qed

lemma skip_spaces_gt:
  "i < length ast \<Longrightarrow> ast ! i = CHR '' '' \<Longrightarrow> i < skip_spaces ast i"
  using skip_spaces_ge [of "i + 1" ast] by (subst skip_spaces.simps) simp

lemma body_index:
  assumes "i < length ast" and "body ast i depth result = Inr (i', depth', result')"
  shows "i \<le> i'"
proof (cases "ast ! i = CHR '' '' \<and> \<not> (0 < i \<and> ast ! (i - 1) = CHR ''\<newline>'')")
  case True
  with assms(2) have "i' = skip_spaces ast i - 1"
    by (auto simp: body_def Let_def split: sum.splits)
  moreover from True assms(1) have "i < skip_spaces ast i"
    by (simp add: skip_spaces_gt)
  ultimately show ?thesis by simp
next
  case False
  with assms(2) show ?thesis
    by (auto simp: body_def Let_def split: if_splits sum.splits)
qed

text \<open>
  The \<^verbatim>\<open>for\<close> loop, from index \<open>i\<close> to the end of the input. It yields the final depth
  with the result, so that the depth counter can be observed.
\<close>

function loop :: "string \<Rightarrow> nat \<Rightarrow> int \<Rightarrow> string \<Rightarrow> error + (int \<times> string)" where
  "loop ast i depth result =
     (if i < length ast then
        (case body ast i depth result of
           Inl e \<Rightarrow> Inl e
         | Inr (i', depth', result') \<Rightarrow> loop ast (i' + 1) depth' result')
      else Inr (depth, result))"
  by pat_completeness auto
termination
proof (relation "measure (\<lambda>(ast, i, depth, result). length ast - i)", goal_cases)
  case 1
  show ?case by simp
next
  case (2 ast i depth result x2 i' y depth' result')
  then have "i \<le> i'" using body_index by blast
  with 2 show ?case by simp
qed

declare loop.simps [simp del]

text \<open>
  The function, called with an integer as its second argument: the prefix
  \<^verbatim>\<open>spaces\<close> is computed from \<^verbatim>\<open>indent\<close> first and never used, then the loop runs
  from index 0 at depth 0 with an empty result. The script calls it with one argument,
  that is with \<open>indent = 0\<close>.
\<close>

definition formatAST :: "string \<Rightarrow> int \<Rightarrow> error + string" where
  "formatAST ast indent =
     (case repeat (Some max_string_length) ''  '' indent of
        Inl e \<Rightarrow> Inl e
      | Inr spaces \<Rightarrow>
          (case loop ast 0 0 [] of
             Inl e \<Rightarrow> Inl e
           | Inr (depth, result) \<Rightarrow> Inr result))"

text \<open>
  The function, called with any number as its second argument. The function hands
  \<^verbatim>\<open>indent\<close> to \<^verbatim>\<open>repeat\<close> and does nothing else with it.
\<close>

definition formatAST_number :: "string \<Rightarrow> number \<Rightarrow> error + string" where
  "formatAST_number ast indent =
     (case repeat_number (Some max_string_length) ''  '' indent of
        Inl e \<Rightarrow> Inl e
      | Inr spaces \<Rightarrow>
          (case loop ast 0 0 [] of
             Inl e \<Rightarrow> Inl e
           | Inr (depth, result) \<Rightarrow> Inr result))"

subsection \<open>The scan with provenance\<close>

text \<open>
  The same loop, with one ghost annotation: every character appended to the result is
  tagged with where it comes from. \<open>Copied\<close> marks a character taken from the input
  (\<^verbatim>\<open>char\<close>), \<open>Inserted\<close> a character of a literal \<^verbatim>\<open>'\n'\<close> or of
  \<^verbatim>\<open>'  '.repeat(...)\<close>. Forgetting the tags gives back the loop above
  (\<open>loop_traced_erase\<close> below).
\<close>

datatype origin = Copied | Inserted

type_synonym traced = "(origin \<times> char) list"

definition body_traced ::
  "string \<Rightarrow> nat \<Rightarrow> int \<Rightarrow> traced \<Rightarrow> error + (nat \<times> int \<times> traced)" where
  "body_traced ast i depth result =
     (let char = ast ! i in
      if char = CHR ''('' then
        (case repeat None ''  '' (depth + 1) of
           Inl e \<Rightarrow> Inl e
         | Inr sp \<Rightarrow>
             Inr (i, depth + 1,
               result @ [(Copied, char)] @ [(Inserted, CHR ''\<newline>'')] @ map (Pair Inserted) sp))
      else if char = CHR '')'' then
        (case repeat None ''  '' (depth - 1) of
           Inl e \<Rightarrow> Inl e
         | Inr sp \<Rightarrow>
             Inr (i, depth - 1,
               result @ [(Inserted, CHR ''\<newline>'')] @ map (Pair Inserted) sp @ [(Copied, char)]))
      else if char = CHR '' '' \<and> \<not> (0 < i \<and> ast ! (i - 1) = CHR ''\<newline>'') then
        (case repeat None ''  '' depth of
           Inl e \<Rightarrow> Inl e
         | Inr sp \<Rightarrow>
             Inr (skip_spaces ast i - 1, depth,
               result @ [(Inserted, CHR ''\<newline>'')] @ map (Pair Inserted) sp))
      else Inr (i, depth, result @ [(Copied, char)]))"

lemma body_traced_erase:
  "body ast i depth (map snd result) =
     (case body_traced ast i depth result of
        Inl e \<Rightarrow> Inl e
      | Inr (i', depth', result') \<Rightarrow> Inr (i', depth', map snd result'))"
  by (simp add: body_def body_traced_def Let_def comp_def split: sum.splits)

lemma body_traced_index:
  assumes "i < length ast" and "body_traced ast i depth result = Inr (i', depth', result')"
  shows "i \<le> i'"
proof -
  from assms(2) have "body ast i depth (map snd result) = Inr (i', depth', map snd result')"
    by (simp add: body_traced_erase)
  with assms(1) show ?thesis by (rule body_index)
qed

function loop_traced :: "string \<Rightarrow> nat \<Rightarrow> int \<Rightarrow> traced \<Rightarrow> error + (int \<times> traced)" where
  "loop_traced ast i depth result =
     (if i < length ast then
        (case body_traced ast i depth result of
           Inl e \<Rightarrow> Inl e
         | Inr (i', depth', result') \<Rightarrow> loop_traced ast (i' + 1) depth' result')
      else Inr (depth, result))"
  by pat_completeness auto
termination
proof (relation "measure (\<lambda>(ast, i, depth, result). length ast - i)", goal_cases)
  case 1
  show ?case by simp
next
  case (2 ast i depth result x2 i' y depth' result')
  then have "i \<le> i'" using body_traced_index by blast
  with 2 show ?case by simp
qed

declare loop_traced.simps [simp del]

definition formatAST_traced :: "string \<Rightarrow> int \<Rightarrow> error + traced" where
  "formatAST_traced ast indent =
     (case repeat (Some max_string_length) ''  '' indent of
        Inl e \<Rightarrow> Inl e
      | Inr spaces \<Rightarrow>
          (case loop_traced ast 0 0 [] of
             Inl e \<Rightarrow> Inl e
           | Inr (depth, result) \<Rightarrow> Inr result))"

lemma loop_traced_erase:
  "loop ast i depth (map snd result) =
     (case loop_traced ast i depth result of
        Inl e \<Rightarrow> Inl e
      | Inr (depth', result') \<Rightarrow> Inr (depth', map snd result'))"
proof (induction ast i depth result rule: loop_traced.induct)
  case (1 ast i depth result)
  show ?case
  proof (cases "i < length ast")
    case False
    then show ?thesis
      by (subst loop.simps, subst loop_traced.simps) simp
  next
    case True
    show ?thesis
    proof (cases "body_traced ast i depth result")
      case (Inl e)
      with True show ?thesis
        by (subst loop.simps, subst loop_traced.simps) (simp add: body_traced_erase)
    next
      case (Inr x)
      obtain i' depth' result' where x: "x = (i', depth', result')"
        by (cases x) auto
      from 1 [OF True Inr] x
      have "loop ast (i' + 1) depth' (map snd result') =
        (case loop_traced ast (i' + 1) depth' result' of
           Inl e \<Rightarrow> Inl e
         | Inr (depth'', result'') \<Rightarrow> Inr (depth'', map snd result''))"
        by simp
      with True Inr x show ?thesis
        by (subst loop.simps, subst loop_traced.simps) (simp add: body_traced_erase)
    qed
  qed
qed

lemma formatAST_traced_erase:
  "formatAST ast indent =
     (case formatAST_traced ast indent of Inl e \<Rightarrow> Inl e | Inr result \<Rightarrow> Inr (map snd result))"
  using loop_traced_erase [of ast 0 0 "[]"]
  by (simp add: formatAST_def formatAST_traced_def split: sum.splits prod.splits)

text \<open>
  The states in which the loop of \<^verbatim>\<open>formatAST\<close> stands at its head while it scans
  \<open>ast\<close>: the initial one, and the one each pass of the body leads to.
\<close>

inductive visits :: "string \<Rightarrow> nat \<Rightarrow> int \<Rightarrow> string \<Rightarrow> bool" for ast :: string where
  start: "visits ast 0 0 []"
| step: "visits ast i depth result \<Longrightarrow> i < length ast \<Longrightarrow>
    body ast i depth result = Inr (i', depth', result') \<Longrightarrow>
    visits ast (i' + 1) depth' result'"

section \<open>Notions of the specification\<close>

text \<open>
  The nesting depth of a string is the number of its opening parentheses minus the
  number of its closing ones. The depth goes negative on \<open>s\<close> when some prefix of \<open>s\<close>
  (of a length \<open>n\<close> from 0 to the length of \<open>s\<close>) has a negative depth; \<open>s\<close> is balanced
  when that never happens and \<open>s\<close> itself has depth 0.
\<close>

definition depth_of :: "string \<Rightarrow> int" where
  "depth_of s = int (count_list s CHR ''('') - int (count_list s CHR '')'')"

definition underflows :: "string \<Rightarrow> bool" where
  "underflows s = (\<exists>n\<in>set [0..<Suc (length s)]. depth_of (take n s) < 0)"

definition balanced :: "string \<Rightarrow> bool" where
  "balanced s = (depth_of s = 0 \<and> \<not> underflows s)"

text \<open>
  The format of section 3 of the specification. A word is a node-type label or a field
  name: a non-empty string without parentheses, spaces and line breaks. An item is a
  word or a node, which is a pair of parentheses around nothing or around items; items
  that follow each other are separated by one space.
\<close>

definition word :: "string \<Rightarrow> bool" where
  "word w = (w \<noteq> [] \<and>
     (\<forall>c\<in>set w. c \<noteq> CHR ''('' \<and> c \<noteq> CHR '')'' \<and> c \<noteq> CHR '' '' \<and> c \<noteq> CHR ''\<newline>''))"

inductive item :: "string \<Rightarrow> bool" and items :: "string \<Rightarrow> bool" where
  label: "word w \<Longrightarrow> item w"
| empty_node: "item ''()''"
| node: "items s \<Longrightarrow> item (CHR ''('' # s @ '')'')"
| one: "item s \<Longrightarrow> items s"
| more: "item s \<Longrightarrow> items t \<Longrightarrow> items (s @ CHR '' '' # t)"

text \<open>
  What the formatter needs of that format, character by character (\<open>p\<close> is the
  character before the string, if there is one): the string is one line; an opening
  parenthesis is the first character or follows a space or an opening parenthesis; what
  follows a closing parenthesis is a space or a closing parenthesis; and no space follows
  a space. Every string of the grammar is of this kind (\<open>items_sexp_format\<close> below), and
  so are strings with a space next to the inner side of a parenthesis.
\<close>

fun separated :: "char option \<Rightarrow> string \<Rightarrow> bool" where
  "separated p [] = True"
| "separated p (c # cs) =
     (c \<noteq> CHR ''\<newline>'' \<and>
      (c = CHR ''('' \<longrightarrow> p = None \<or> p = Some CHR '' '' \<or> p = Some CHR ''('') \<and>
      (p = Some CHR '')'' \<longrightarrow> c = CHR '' '' \<or> c = CHR '')'') \<and>
      (p = Some CHR '' '' \<longrightarrow> c \<noteq> CHR '' '') \<and>
      separated (Some c) cs)"

definition sexp_format :: "string \<Rightarrow> bool" where
  "sexp_format s = (balanced s \<and> separated None s)"

text \<open>
  The indentation prefix of depth \<open>d\<close>: two spaces, \<open>d\<close> times.
\<close>

definition pad :: "int \<Rightarrow> string" where
  "pad d = concat (replicate (nat d) ''  '')"

text \<open>
  The lines of a string (\<open>cur\<close> is the line read so far), and the property that every
  line with a parenthesis in it is the indentation prefix of the depth followed by that
  one parenthesis: \<open>d\<close> is the depth at the beginning of the line, an opening
  parenthesis stands at depth \<open>d\<close> and raises it, a closing one lowers it and stands at
  the lowered depth.
\<close>

fun lines_from :: "string \<Rightarrow> string \<Rightarrow> string list" where
  "lines_from cur [] = [cur]"
| "lines_from cur (c # cs) =
     (if c = CHR ''\<newline>'' then cur # lines_from [] cs else lines_from (cur @ [c]) cs)"

definition lines_of :: "string \<Rightarrow> string list" where
  "lines_of s = lines_from [] s"

fun own_lines :: "int \<Rightarrow> string list \<Rightarrow> bool" where
  "own_lines d [] = True"
| "own_lines d (l # ls) =
     (if CHR ''('' \<in> set l \<or> CHR '')'' \<in> set l then
        (l = pad d @ ''('' \<and> own_lines (d + 1) ls) \<or>
        (0 < d \<and> l = pad (d - 1) @ '')'' \<and> own_lines (d - 1) ls)
      else own_lines d ls)"

text \<open>
  What is left of a traced result when every inserted character is deleted; and a
  string without its separator spaces: every space is removed except one that directly
  follows a line break of the string (\<open>nl\<close> says whether a line break precedes).
\<close>

definition copied :: "traced \<Rightarrow> string" where
  "copied out = map snd (filter (\<lambda>p. fst p = Copied) out)"

fun unseparated :: "bool \<Rightarrow> string \<Rightarrow> string" where
  "unseparated nl [] = []"
| "unseparated nl (c # cs) =
     (if c = CHR '' '' \<and> \<not> nl then unseparated False cs
      else c # unseparated (c = CHR ''\<newline>'') cs)"

section \<open>Auxiliary notions\<close>

text \<open>
  The scan told over the input that is still to be read: \<open>emit_from nl d s\<close> is what
  the loop appends to its result, and the depth it ends with, when it stands in front of
  \<open>s\<close> at depth \<open>d\<close>; \<open>nl\<close> says whether the character before \<open>s\<close> is a line
  break. Lemma \<open>loop_traced_emit_from\<close> proves that this is the loop; the properties
  below are proved on this view and carried over.
\<close>

definition prepend :: "traced \<Rightarrow> error + (int \<times> traced) \<Rightarrow> error + (int \<times> traced)" where
  "prepend xs r = (case r of Inl e \<Rightarrow> Inl e | Inr (d, out) \<Rightarrow> Inr (d, xs @ out))"

function emit_from :: "bool \<Rightarrow> int \<Rightarrow> string \<Rightarrow> error + (int \<times> traced)" where
  "emit_from nl d [] = Inr (d, [])"
| "emit_from nl d (c # cs) =
     (if c = CHR ''('' then
        (if d + 1 < 0 then Inl RangeError
         else prepend ((Copied, c) # (Inserted, CHR ''\<newline>'') # map (Pair Inserted) (pad (d + 1)))
                (emit_from False (d + 1) cs))
      else if c = CHR '')'' then
        (if d - 1 < 0 then Inl RangeError
         else prepend ((Inserted, CHR ''\<newline>'') # map (Pair Inserted) (pad (d - 1)) @ [(Copied, c)])
                (emit_from False (d - 1) cs))
      else if c = CHR '' '' \<and> \<not> nl then
        (if d < 0 then Inl RangeError
         else prepend ((Inserted, CHR ''\<newline>'') # map (Pair Inserted) (pad d))
                (emit_from False d (dropWhile (\<lambda>x. x = CHR '' '') cs)))
      else prepend [(Copied, c)] (emit_from (c = CHR ''\<newline>'') d cs))"
  by pat_completeness auto
termination
  by (relation "measure (\<lambda>(nl, d, s). length s)")
    (auto simp: le_imp_less_Suc length_dropWhile_le)

text \<open>
  The depth goes negative on \<open>s\<close> when it starts at \<open>d\<close>.
\<close>

definition under :: "int \<Rightarrow> string \<Rightarrow> bool" where
  "under d s = (\<exists>n\<in>set [0..<Suc (length s)]. d + depth_of (take n s) < 0)"

text \<open>
  The state of the line being written, by the input character \<open>p\<close> read last: after a
  closing parenthesis the line is the prefix and that parenthesis; at the start, after
  an opening parenthesis and after a space it is the prefix of the current depth;
  otherwise it has no parenthesis.
\<close>

definition line_ok :: "char option \<Rightarrow> int \<Rightarrow> string \<Rightarrow> bool" where
  "line_ok p d cur =
     (if p = Some CHR '')'' then cur = pad d @ '')''
      else if p = None \<or> p = Some CHR ''('' \<or> p = Some CHR '' '' then cur = pad d
      else CHR ''('' \<notin> set cur \<and> CHR '')'' \<notin> set cur)"

text \<open>
  What the grammar gives of a string: it is not empty, has no space at either end, and
  is balanced and separated.
\<close>

definition good :: "string \<Rightarrow> bool" where
  "good s = (s \<noteq> [] \<and> hd s \<noteq> CHR '' '' \<and> last s \<noteq> CHR '' '' \<and> separated None s \<and>
     depth_of s = 0 \<and> \<not> under 0 s)"

section \<open>Properties of the scan\<close>

subsection \<open>The inner loop\<close>

lemma skip_spaces_le: "i \<le> length ast \<Longrightarrow> skip_spaces ast i \<le> length ast"
proof (induction ast i rule: skip_spaces.induct)
  case (1 ast i)
  show ?case
  proof (cases "i < length ast \<and> ast ! i = CHR '' ''")
    case True
    with 1 have "skip_spaces ast (i + 1) \<le> length ast" by simp
    with True show ?thesis by (subst skip_spaces.simps) simp
  next
    case False
    with 1(2) show ?thesis by (subst skip_spaces.simps) auto
  qed
qed

lemma skip_spaces_drop:
  "i \<le> length ast \<Longrightarrow>
   drop (skip_spaces ast i) ast = dropWhile (\<lambda>x. x = CHR '' '') (drop i ast)"
proof (induction ast i rule: skip_spaces.induct)
  case (1 ast i)
  show ?case
  proof (cases "i < length ast")
    case False
    with 1(2) show ?thesis by (subst skip_spaces.simps) simp
  next
    case True
    then have d: "drop i ast = ast ! i # drop (i + 1) ast"
      by (simp add: Cons_nth_drop_Suc)
    show ?thesis
    proof (cases "ast ! i = CHR '' ''")
      case False
      with True d show ?thesis by (subst skip_spaces.simps) simp
    next
      case sp: True
      with True 1 have "drop (skip_spaces ast (i + 1)) ast =
        dropWhile (\<lambda>x. x = CHR '' '') (drop (i + 1) ast)" by simp
      with True sp d show ?thesis by (subst skip_spaces.simps) simp
    qed
  qed
qed

lemma skip_spaces_prev:
  "i < skip_spaces ast i \<Longrightarrow> ast ! (skip_spaces ast i - 1) = CHR '' ''"
proof (induction ast i rule: skip_spaces.induct)
  case (1 ast i)
  from 1(2) have t: "i < length ast \<and> ast ! i = CHR '' ''"
    by (subst (asm) skip_spaces.simps) (auto split: if_splits)
  then have e: "skip_spaces ast i = skip_spaces ast (i + 1)"
    by (subst skip_spaces.simps) simp
  show ?case
  proof (cases "i + 1 < skip_spaces ast (i + 1)")
    case True
    with 1(1) t e show ?thesis by simp
  next
    case False
    with skip_spaces_ge [of "i + 1" ast] have "skip_spaces ast (i + 1) = i + 1" by simp
    with e t show ?thesis by simp
  qed
qed

lemma skip_spaces_run:
  "i \<le> j \<Longrightarrow> j < skip_spaces ast i \<Longrightarrow> ast ! j = CHR '' ''"
proof (induction ast i rule: skip_spaces.induct)
  case (1 ast i)
  from 1(3) 1(2) have t: "i < length ast \<and> ast ! i = CHR '' ''"
    by (subst (asm) skip_spaces.simps) (auto split: if_splits)
  then have e: "skip_spaces ast i = skip_spaces ast (i + 1)"
    by (subst skip_spaces.simps) simp
  show ?case
  proof (cases "j = i")
    case True
    with t show ?thesis by simp
  next
    case False
    with 1(2) have "i + 1 \<le> j" by simp
    with 1(1) t 1(3) e show ?thesis by simp
  qed
qed

lemma skip_spaces_stop:
  "skip_spaces ast i < length ast \<Longrightarrow> ast ! skip_spaces ast i \<noteq> CHR '' ''"
proof (induction ast i rule: skip_spaces.induct)
  case (1 ast i)
  show ?case
  proof (cases "i < length ast \<and> ast ! i = CHR '' ''")
    case True
    then have e: "skip_spaces ast i = skip_spaces ast (i + 1)"
      by (subst skip_spaces.simps) simp
    with 1 True show ?thesis by simp
  next
    case False
    then have e: "skip_spaces ast i = i"
      by (subst skip_spaces.simps) auto
    with 1(2) False show ?thesis by simp
  qed
qed

subsection \<open>The function in terms of the list view\<close>

lemma repeat_pad: "repeat None ''  '' d = (if d < 0 then Inl RangeError else Inr (pad d))"
  by (simp add: repeat_def pad_def)

lemma repeat_spaces:
  "repeat (Some max_string_length) ''  '' indent =
     (if indent < 0 \<or> max_string_length < 2 * indent then Inl RangeError
      else Inr (pad indent))"
  by (simp add: repeat_def pad_def)

lemma loop_traced_emit_from:
  "i \<le> length ast \<Longrightarrow>
   loop_traced ast i depth result =
     (case emit_from (0 < i \<and> ast ! (i - 1) = CHR ''\<newline>'') depth (drop i ast) of
        Inl e \<Rightarrow> Inl e
      | Inr (d, out) \<Rightarrow> Inr (d, result @ out))"
proof (induction ast i depth result rule: loop_traced.induct)
  case (1 ast i depth result)
  show ?case
  proof (cases "i < length ast")
    case False
    with 1(2) show ?thesis by (subst loop_traced.simps) simp
  next
    case True
    then have d: "drop i ast = ast ! i # drop (i + 1) ast"
      by (simp add: Cons_nth_drop_Suc)
    show ?thesis
    proof (cases "body_traced ast i depth result")
      case (Inl e)
      with True d show ?thesis
        by (subst loop_traced.simps)
          (auto simp: body_traced_def Let_def repeat_pad split: if_splits)
    next
      case (Inr x)
      obtain i' depth' result' where x: "x = (i', depth', result')"
        by (cases x) auto
      have ih: "i' + 1 \<le> length ast \<Longrightarrow>
        loop_traced ast (i' + 1) depth' result' =
          (case emit_from (ast ! i' = CHR ''\<newline>'') depth' (drop (i' + 1) ast) of
             Inl e \<Rightarrow> Inl e
           | Inr (d, out) \<Rightarrow> Inr (d, result' @ out))"
        using 1(1) [OF True Inr x [symmetric] refl] by simp
      have unfold: "loop_traced ast i depth result = loop_traced ast (i' + 1) depth' result'"
        using True Inr x by (subst loop_traced.simps) simp
      show ?thesis
      proof (cases "ast ! i = CHR '' '' \<and> \<not> (0 < i \<and> ast ! (i - 1) = CHR ''\<newline>'')")
        case False
        with Inr x have i': "i' = i"
          by (auto simp: body_traced_def Let_def repeat_pad split: if_splits)
        with True have "i' + 1 \<le> length ast" by simp
        note ih' = ih [OF this]
        from False Inr x i' show ?thesis
          unfolding unfold ih' d
          by (auto simp: body_traced_def Let_def repeat_pad prepend_def
              split: if_splits sum.splits prod.splits)
      next
        case sp: True
        with Inr x have i': "i' = skip_spaces ast i - 1" and dd: "depth' = depth" "0 \<le> depth"
          and r: "result' = result @ (Inserted, CHR ''\<newline>'') # map (Pair Inserted) (pad depth)"
          by (auto simp: body_traced_def Let_def repeat_pad split: if_splits)
        from sp True have gt: "i < skip_spaces ast i" by (simp add: skip_spaces_gt)
        with i' have s: "i' + 1 = skip_spaces ast i" by simp
        from True have "skip_spaces ast i \<le> length ast" by (simp add: skip_spaces_le)
        with s have "i' + 1 \<le> length ast" by simp
        note ih' = ih [OF this]
        from gt have "ast ! i' = CHR '' ''" unfolding i' by (rule skip_spaces_prev)
        moreover from True have "drop (i' + 1) ast = dropWhile (\<lambda>x. x = CHR '' '') (drop i ast)"
          unfolding s by (simp add: skip_spaces_drop)
        ultimately show ?thesis
          using sp dd r unfolding unfold ih' d
          by (auto simp: prepend_def split: sum.splits prod.splits)
      qed
    qed
  qed
qed

lemma loop_emit_from:
  "loop ast 0 0 [] =
     (case emit_from False 0 ast of Inl e \<Rightarrow> Inl e | Inr (d, out) \<Rightarrow> Inr (d, map snd out))"
  using loop_traced_erase [of ast 0 0 "[]"] loop_traced_emit_from [of 0 ast 0 "[]"]
  by (simp split: sum.splits prod.splits)

lemma formatAST_traced_emit_from:
  "formatAST_traced ast indent =
     (if indent < 0 \<or> max_string_length < 2 * indent then Inl RangeError
      else case emit_from False 0 ast of Inl e \<Rightarrow> Inl e | Inr (d, out) \<Rightarrow> Inr out)"
  using loop_traced_emit_from [of 0 ast 0 "[]"]
  by (simp add: formatAST_traced_def repeat_spaces split: sum.splits prod.splits)

lemma formatAST_emit_from:
  "formatAST ast indent =
     (if indent < 0 \<or> max_string_length < 2 * indent then Inl RangeError
      else case emit_from False 0 ast of Inl e \<Rightarrow> Inl e | Inr (d, out) \<Rightarrow> Inr (map snd out))"
  by (simp add: formatAST_traced_erase formatAST_traced_emit_from split: sum.splits prod.splits)

lemma formatAST_zero:
  "formatAST ast 0 =
     (case emit_from False 0 ast of Inl e \<Rightarrow> Inl e | Inr (d, out) \<Rightarrow> Inr (map snd out))"
  by (simp add: formatAST_emit_from max_string_length_def)

lemma formatAST_traced_zero:
  "formatAST_traced ast 0 =
     (case emit_from False 0 ast of Inl e \<Rightarrow> Inl e | Inr (d, out) \<Rightarrow> Inr out)"
  by (simp add: formatAST_traced_emit_from max_string_length_def)

subsection \<open>The states the scan visits\<close>

lemma visits_depth: "visits ast i depth result \<Longrightarrow> 0 \<le> depth"
proof (induction rule: visits.induct)
  case start
  show ?case by simp
next
  case (step i depth result i' depth' result')
  then show ?case
    by (auto simp: body_def Let_def repeat_pad split: if_splits)
qed

lemma depth_of_snoc:
  "depth_of (xs @ [c]) =
     depth_of xs + (if c = CHR ''('' then 1 else if c = CHR '')'' then - 1 else 0)"
  by (simp add: depth_of_def)

lemma depth_of_take_Suc:
  "i < length ast \<Longrightarrow>
   depth_of (take (i + 1) ast) =
     depth_of (take i ast) +
       (if ast ! i = CHR ''('' then 1 else if ast ! i = CHR '')'' then - 1 else 0)"
  by (simp add: take_Suc_conv_app_nth depth_of_snoc)

lemma depth_of_take_skip:
  "i \<le> length ast \<Longrightarrow> depth_of (take (skip_spaces ast i) ast) = depth_of (take i ast)"
proof (induction ast i rule: skip_spaces.induct)
  case (1 ast i)
  show ?case
  proof (cases "i < length ast \<and> ast ! i = CHR '' ''")
    case True
    then have e: "skip_spaces ast i = skip_spaces ast (i + 1)"
      by (subst skip_spaces.simps) simp
    from True 1 have "depth_of (take (skip_spaces ast (i + 1)) ast) = depth_of (take (i + 1) ast)"
      by simp
    also from True depth_of_take_Suc [of i ast] have "\<dots> = depth_of (take i ast)"
      by simp
    finally show ?thesis using e by simp
  next
    case False
    then have "skip_spaces ast i = i"
      by (subst skip_spaces.simps) auto
    then show ?thesis by simp
  qed
qed

lemma visits_depth_of:
  "visits ast i depth result \<Longrightarrow> i \<le> length ast \<and> depth = depth_of (take i ast)"
proof (induction rule: visits.induct)
  case start
  show ?case by (simp add: depth_of_def)
next
  case (step i depth result i' depth' result')
  then have d: "depth = depth_of (take i ast)" by simp
  show ?case
  proof (cases "ast ! i = CHR '' '' \<and> \<not> (0 < i \<and> ast ! (i - 1) = CHR ''\<newline>'')")
    case True
    with step(3) have i': "i' = skip_spaces ast i - 1" and d': "depth' = depth"
      by (auto simp: body_def Let_def repeat_pad split: if_splits)
    from True step(2) have "i < skip_spaces ast i" by (simp add: skip_spaces_gt)
    with i' have s: "i' + 1 = skip_spaces ast i" by simp
    from step(2) have "skip_spaces ast i \<le> length ast" by (simp add: skip_spaces_le)
    moreover from step(2) have "depth_of (take (skip_spaces ast i) ast) = depth_of (take i ast)"
      by (simp add: depth_of_take_skip)
    ultimately show ?thesis using s d d' by simp
  next
    case False
    with step(3) have i': "i' = i"
      and d': "depth' =
        depth + (if ast ! i = CHR ''('' then 1 else if ast ! i = CHR '')'' then - 1 else 0)"
      by (auto simp: body_def Let_def repeat_pad split: if_splits)
    from step(2) depth_of_take_Suc [of i ast] d d' i' show ?thesis by simp
  qed
qed

subsection \<open>When the scan fails, and the depth it ends with\<close>

lemma underflows_under: "underflows s = under 0 s"
  by (simp add: underflows_def under_def)

lemma under_iff: "under d s = (\<exists>n\<le>length s. d + depth_of (take n s) < 0)"
proof -
  have "set [0..<Suc (length s)] = {n. n \<le> length s}" by auto
  then show ?thesis unfolding under_def by blast
qed

lemma under_Nil [simp]: "under d [] = (d < 0)"
  by (simp add: under_def depth_of_def)

lemma depth_of_Cons:
  "depth_of (c # cs) =
     (if c = CHR ''('' then 1 else if c = CHR '')'' then - 1 else 0) + depth_of cs"
  by (simp add: depth_of_def)

lemma under_Cons:
  "under d (c # cs) =
     (d < 0 \<or> under (d + (if c = CHR ''('' then 1 else if c = CHR '')'' then - 1 else 0)) cs)"
proof
  assume "under d (c # cs)"
  then obtain n where n: "n \<le> length (c # cs)" "d + depth_of (take n (c # cs)) < 0"
    by (auto simp: under_iff)
  show "d < 0 \<or> under (d + (if c = CHR ''('' then 1 else if c = CHR '')'' then - 1 else 0)) cs"
  proof (cases n)
    case 0
    with n show ?thesis by (simp add: depth_of_def)
  next
    case (Suc m)
    with n have "m \<le> length cs"
      "d + (if c = CHR ''('' then 1 else if c = CHR '')'' then - 1 else 0) + depth_of (take m cs) < 0"
      by (simp_all add: depth_of_Cons)
    then show ?thesis unfolding under_iff by blast
  qed
next
  assume a: "d < 0 \<or> under (d + (if c = CHR ''('' then 1 else if c = CHR '')'' then - 1 else 0)) cs"
  show "under d (c # cs)"
  proof (cases "d < 0")
    case True
    then have "d + depth_of (take 0 (c # cs)) < 0" by (simp add: depth_of_def)
    then show ?thesis unfolding under_iff by blast
  next
    case False
    with a obtain m where m: "m \<le> length cs"
      "d + (if c = CHR ''('' then 1 else if c = CHR '')'' then - 1 else 0) + depth_of (take m cs) < 0"
      by (auto simp: under_iff)
    then have "Suc m \<le> length (c # cs)" "d + depth_of (take (Suc m) (c # cs)) < 0"
      by (simp_all add: depth_of_Cons)
    then show ?thesis unfolding under_iff by blast
  qed
qed

lemma under_neg: "d < 0 \<Longrightarrow> under d s"
  by (cases s) (simp_all add: under_Cons)

lemma under_dropWhile:
  "under d (dropWhile (\<lambda>x. x = CHR '' '') cs) = under d cs"
  by (induction cs) (auto simp: under_Cons under_neg)

lemma depth_of_dropWhile:
  "depth_of (dropWhile (\<lambda>x. x = CHR '' '') cs) = depth_of cs"
  by (induction cs) (auto simp: depth_of_Cons)

lemma prepend_Inl [simp]: "(prepend xs r = Inl e) = (r = Inl e)"
  by (simp add: prepend_def split: sum.splits prod.splits)

lemma prepend_Inr [simp]:
  "(prepend xs r = Inr (d, out)) = (\<exists>out'. r = Inr (d, out') \<and> out = xs @ out')"
  by (auto simp: prepend_def split: sum.splits prod.splits)

lemma emit_from_fails: "0 \<le> d \<Longrightarrow> (emit_from nl d s = Inl RangeError) = under d s"
proof (induction nl d s rule: emit_from.induct)
  case (1 nl d)
  then show ?case by simp
next
  case (2 nl d c cs)
  then show ?case
    by (auto simp: under_Cons under_dropWhile under_neg)
qed

lemma emit_from_depth: "emit_from nl d s = Inr (d', out) \<Longrightarrow> d' = d + depth_of s"
proof (induction nl d s arbitrary: out rule: emit_from.induct)
  case (1 nl d)
  then show ?case by (simp add: depth_of_def)
next
  case (2 nl d c cs)
  then show ?case
    by (auto simp: depth_of_Cons depth_of_dropWhile split: if_splits)
qed

lemma error_is_RangeError: "(e :: error) = RangeError"
  by (cases e) simp

lemma emit_from_returns:
  assumes "\<not> underflows s"
  shows "\<exists>out. emit_from False 0 s = Inr (depth_of s, out)"
proof (cases "emit_from False 0 s")
  case (Inl e)
  then have "emit_from False 0 s = Inl RangeError" by (simp add: error_is_RangeError [of e])
  then have "under 0 s" by (simp add: emit_from_fails)
  with assms show ?thesis by (simp add: underflows_under)
next
  case (Inr x)
  obtain d out where "x = (d, out)" by (cases x) auto
  with Inr emit_from_depth [of False 0 s d out] show ?thesis by simp
qed

lemma set_pad: "set (pad d) \<subseteq> {CHR '' ''}"
  by (auto simp: pad_def)

lemma filter_pad: "\<not> P CHR '' '' \<Longrightarrow> filter P (pad d) = []"
  using set_pad [of d] by (auto simp: filter_empty_conv)

lemma filter_dropWhile_space:
  "\<not> P CHR '' '' \<Longrightarrow> filter P (dropWhile (\<lambda>x. x = CHR '' '') cs) = filter P cs"
  by (induction cs) auto

lemma emit_from_filter:
  assumes "\<not> P CHR '' ''" and "\<not> P CHR ''\<newline>''"
  shows "emit_from nl d s = Inr (d', out) \<Longrightarrow> filter P (map snd out) = filter P s"
proof (induction nl d s arbitrary: out rule: emit_from.induct)
  case (1 nl d)
  then show ?case by simp
next
  case (2 nl d c cs)
  with assms show ?case
    by (auto simp: comp_def filter_pad filter_dropWhile_space split: if_splits)
qed

lemma formatAST_filter:
  assumes "\<not> P CHR '' ''" and "\<not> P CHR ''\<newline>''" and "formatAST ast indent = Inr out"
  shows "filter P out = filter P ast"
  using assms(3) emit_from_filter [OF assms(1,2)]
  by (auto simp: formatAST_emit_from split: if_splits sum.splits prod.splits)

lemma formatAST_count:
  assumes "formatAST ast indent = Inr out" and "c \<noteq> CHR '' ''" and "c \<noteq> CHR ''\<newline>''"
  shows "count_list out c = count_list ast c"
proof -
  have "filter ((=) c) out = filter ((=) c) ast"
    using assms(2,3) by (intro formatAST_filter [OF _ _ assms(1)]) auto
  then show ?thesis by (simp add: count_list_eq_length_filter)
qed

lemma formatAST_returns:
  assumes "\<not> underflows ast" and "0 \<le> indent" and "2 * indent \<le> max_string_length"
  shows "\<exists>out. formatAST ast indent = Inr out"
  using emit_from_returns [OF assms(1)] assms(2,3) by (auto simp: formatAST_emit_from)

subsection \<open>What the scan copies\<close>

lemma copied_simps [simp]:
  "copied [] = []"
  "copied ((Copied, c) # out) = c # copied out"
  "copied ((Inserted, c) # out) = copied out"
  "copied (xs @ ys) = copied xs @ copied ys"
  "copied (map (Pair Inserted) cs) = []"
  by (simp_all add: copied_def filter_empty_conv)

lemma unseparated_dropWhile:
  "unseparated False (dropWhile (\<lambda>x. x = CHR '' '') cs) = unseparated False cs"
  by (induction cs) auto

lemma emit_from_copied:
  "emit_from nl d s = Inr (d', out) \<Longrightarrow> copied out = unseparated nl s"
proof (induction nl d s arbitrary: out rule: emit_from.induct)
  case (1 nl d)
  then show ?case by simp
next
  case (2 nl d c cs)
  then show ?case
    by (auto simp: unseparated_dropWhile split: if_splits)
qed

lemma unseparated_no_space: "CHR '' '' \<notin> set s \<Longrightarrow> unseparated nl s = s"
  by (induction s arbitrary: nl) auto

lemma unseparated_no_newline:
  "CHR ''\<newline>'' \<notin> set s \<Longrightarrow> unseparated False s = filter (\<lambda>c. c \<noteq> CHR '' '') s"
  by (induction s) auto

subsection \<open>The lines of the output\<close>

lemma lines_from_append:
  "CHR ''\<newline>'' \<notin> set a \<Longrightarrow> lines_from cur (a @ b) = lines_from (cur @ a) b"
  by (induction a arbitrary: cur) auto

lemma pad_no_newline [simp]: "CHR ''\<newline>'' \<notin> set (pad d)"
  using set_pad [of d] by auto

lemma pad_no_paren [simp]: "CHR ''('' \<notin> set (pad d)" "CHR '')'' \<notin> set (pad d)"
  using set_pad [of d] by auto

lemma lines_from_break:
  "lines_from cur (CHR ''\<newline>'' # pad d @ b) = cur # lines_from (pad d) b"
  by (simp add: lines_from_append)

lemma separated_single: "separated (Some CHR '' '') cs \<Longrightarrow> dropWhile (\<lambda>x. x = CHR '' '') cs = cs"
  by (cases cs) auto

lemma line_ok_no_paren:
  "line_ok p d cur \<Longrightarrow> p \<noteq> Some CHR '')'' \<Longrightarrow> CHR ''('' \<notin> set cur \<and> CHR '')'' \<notin> set cur"
  by (auto simp: line_ok_def split: if_splits)

lemma own_lines_after:
  assumes "line_ok p d cur" and "0 \<le> d" and "own_lines d ls"
  shows "own_lines (if p = Some CHR '')'' then d + 1 else d) (cur # ls)"
proof (cases "p = Some CHR '')''")
  case True
  with assms show ?thesis by (simp add: line_ok_def)
next
  case False
  with line_ok_no_paren [OF assms(1)] assms(3) show ?thesis by simp
qed

lemma emit_from_own_lines:
  "emit_from nl d s = Inr (d', out) \<Longrightarrow> \<not> nl \<Longrightarrow> 0 \<le> d \<Longrightarrow> separated p s \<Longrightarrow>
   line_ok p d cur \<Longrightarrow>
   own_lines (if p = Some CHR '')'' then d + 1 else d) (lines_from cur (map snd out))"
proof (induction nl d s arbitrary: out p cur rule: emit_from.induct)
  case (1 nl d)
  from own_lines_after [OF 1(5,3), of "[]"] 1(1) show ?case by simp
next
  case (2 nl d c cs)
  note sep = \<open>separated p (c # cs)\<close>
  then have sep': "separated (Some c) cs" by simp
  show ?case
  proof (cases "c = CHR ''(''")
    case True
    with 2(5) obtain out' where
      e: "emit_from False (d + 1) cs = Inr (d', out')" and
      out: "out = (Copied, c) # (Inserted, CHR ''\<newline>'') # map (Pair Inserted) (pad (d + 1)) @ out'"
      by (auto split: if_splits)
    from True sep have p: "p = None \<or> p = Some CHR '' '' \<or> p = Some CHR ''(''" by simp
    with 2(9) have cur: "cur = pad d" by (auto simp: line_ok_def)
    have "line_ok (Some c) (d + 1) (pad (d + 1))" using True by (simp add: line_ok_def)
    from 2(1) [OF True _ e _ _ sep' this] 2(7) True
    have "own_lines (d + 1) (lines_from (pad (d + 1)) (map snd out'))" by simp
    with p cur True show ?thesis
      unfolding out by (auto simp: comp_def lines_from_append)
  next
    case nopen: False
    show ?thesis
    proof (cases "c = CHR '')''")
      case True
      with 2(5) obtain out' where
        e: "emit_from False (d - 1) cs = Inr (d', out')" and d: "0 \<le> d - 1" and
        out: "out = (Inserted, CHR ''\<newline>'') # map (Pair Inserted) (pad (d - 1)) @ (Copied, c) # out'"
        by (auto split: if_splits)
      have "line_ok (Some c) (d - 1) (pad (d - 1) @ '')'')" using True by (simp add: line_ok_def)
      from 2(2) [OF nopen True _ e _ d sep' this] True d
      have "own_lines d (lines_from (pad (d - 1) @ '')'') (map snd out'))" by simp
      from own_lines_after [OF 2(9,7) this] True show ?thesis
        unfolding out by (simp add: comp_def lines_from_append)
    next
      case nclose: False
      show ?thesis
      proof (cases "c = CHR '' ''")
        case True
        from sep' True have dw: "dropWhile (\<lambda>x. x = CHR '' '') cs = cs"
          by (simp add: separated_single)
        from True 2(5,6) dw obtain out' where
          e: "emit_from False d (dropWhile (\<lambda>x. x = CHR '' '') cs) = Inr (d', out')" and
          out: "out = (Inserted, CHR ''\<newline>'') # map (Pair Inserted) (pad d) @ out'"
          by (auto split: if_splits)
        have "line_ok (Some c) d (pad d)" using True by (simp add: line_ok_def)
        from 2(3) [OF nopen nclose _ _ e _ 2(7) _ this] True 2(6) 2(7) sep' dw
        have "own_lines d (lines_from (pad d) (map snd out'))" by simp
        from own_lines_after [OF 2(9,7) this] show ?thesis
          unfolding out by (simp add: comp_def lines_from_append)
      next
        case nspace: False
        from sep have nnl: "c \<noteq> CHR ''\<newline>''" by simp
        from nopen nclose nspace 2(5) obtain out' where
          e: "emit_from (c = CHR ''\<newline>'') d cs = Inr (d', out')" and
          out: "out = (Copied, c) # out'"
          by (auto split: if_splits)
        from sep nspace nclose have p: "p \<noteq> Some CHR '')''" by auto
        from line_ok_no_paren [OF 2(9) p] nopen nclose nspace
        have "line_ok (Some c) d (cur @ [c])" by (simp add: line_ok_def)
        from 2(4) [OF nopen nclose _ e _ 2(7) sep' this] nspace nnl nclose
        have "own_lines d (lines_from (cur @ [c]) (map snd out'))" by simp
        with p nnl show ?thesis unfolding out by simp
      qed
    qed
  qed
qed

subsection \<open>The grammar of section 3\<close>

lemma separated_append:
  "separated p (a @ b) = (separated p a \<and> separated (if a = [] then p else Some (last a)) b)"
  by (induction a arbitrary: p) auto

lemma separated_after_open: "separated None s \<Longrightarrow> separated (Some CHR ''('') s"
  by (cases s) auto

lemma separated_after_space:
  "separated None s \<Longrightarrow> s \<noteq> [] \<Longrightarrow> hd s \<noteq> CHR '' '' \<Longrightarrow> separated (Some CHR '' '') s"
  by (cases s) auto

lemma depth_of_Nil [simp]: "depth_of [] = 0"
  by (simp add: depth_of_def)

lemma depth_of_append: "depth_of (a @ b) = depth_of a + depth_of b"
  by (simp add: depth_of_def)

lemma under_append: "under d (a @ b) = (under d a \<or> under (d + depth_of a) b)"
proof (induction a arbitrary: d)
  case Nil
  show ?case using under_neg [of d b] by (auto simp: depth_of_def)
next
  case (Cons c a)
  show ?case by (simp add: under_Cons Cons depth_of_Cons add.assoc)
qed

lemma under_mono: "under d' s \<Longrightarrow> d \<le> d' \<Longrightarrow> under d s"
proof (induction s arbitrary: d d')
  case Nil
  then show ?case by simp
next
  case (Cons c s)
  from Cons.prems show ?case
    using Cons.IH [of "d' + (if c = CHR ''('' then 1 else if c = CHR '')'' then - 1 else 0)"
        "d + (if c = CHR ''('' then 1 else if c = CHR '')'' then - 1 else 0)"]
    by (auto simp: under_Cons)
qed

lemma plain_separated:
  "\<forall>c\<in>set w. c \<noteq> CHR ''('' \<and> c \<noteq> CHR '')'' \<and> c \<noteq> CHR '' '' \<and> c \<noteq> CHR ''\<newline>'' \<Longrightarrow>
   p \<noteq> Some CHR '')'' \<Longrightarrow> separated p w"
  by (induction w arbitrary: p) auto

lemma plain_depth:
  "\<forall>c\<in>set w. c \<noteq> CHR ''('' \<and> c \<noteq> CHR '')'' \<Longrightarrow> depth_of w = 0 \<and> (under d w = (d < 0))"
  by (induction w arbitrary: d) (auto simp: depth_of_Cons under_Cons)

lemma word_good: "word w \<Longrightarrow> good w"
  unfolding good_def word_def
  using plain_separated [of w None] plain_depth [of w 0]
  by (auto simp: neq_Nil_conv intro: last_in_set)

lemma item_good: "(item s \<longrightarrow> good s) \<and> (items s \<longrightarrow> good s)"
proof (induction rule: item_items.induct)
  case (label w)
  then show ?case by (rule word_good)
next
  case empty_node
  show ?case by (simp add: good_def depth_of_def under_Cons)
next
  case (node s)
  then have "separated (Some CHR ''('') s" by (simp add: good_def separated_after_open)
  moreover from node have "\<not> under 1 s" using under_mono [of 1 s 0] by (auto simp: good_def)
  ultimately show ?case using node
    by (simp add: good_def separated_append depth_of_append depth_of_Cons under_Cons
        under_append)
next
  case (one s)
  then show ?case by simp
next
  case (more s t)
  then show ?case
    by (auto simp: good_def separated_append depth_of_append depth_of_Cons under_Cons
        under_append separated_after_space)
qed

lemma items_sexp_format: "items s \<Longrightarrow> sexp_format s"
  using item_good [of s] by (simp add: good_def sexp_format_def balanced_def underflows_under)

text \<open>
  A serialization as the parsing library prints it, with a field name, is in the grammar.
\<close>

lemma items_example: "items ''(program (call fn: (id) (args)))''"
proof -
  have w: "word ''program''" "word ''call''" "word ''fn:''" "word ''id''" "word ''args''"
    by (simp_all add: word_def)
  have "items ''id''" "items ''args''"
    using w by (auto intro: item_items.intros)
  then have "item ''(id)''" "item ''(args)''"
    using item_items.node by fastforce+
  then have "items ''call fn: (id) (args)''"
    using w item_items.more [of "''call''" "''fn: (id) (args)''"]
      item_items.more [of "''fn:''" "''(id) (args)''"]
      item_items.more [of "''(id)''" "''(args)''"]
    by (auto intro: item_items.intros)
  then have "item ''(call fn: (id) (args))''"
    using item_items.node by fastforce
  then have "items ''program (call fn: (id) (args))''"
    using w item_items.more [of "''program''" "''(call fn: (id) (args))''"]
    by (auto intro: item_items.intros)
  then have "item ''(program (call fn: (id) (args)))''"
    using item_items.node by fastforce
  then show ?thesis by (rule item_items.one)
qed

subsection \<open>The count of the unused prefix\<close>

lemma truncate_toward_zero_of_int [simp]: "truncate_toward_zero (of_int k) = k"
  by (simp add: truncate_toward_zero_def)

lemma truncate_toward_zero_nonneg: "(0 \<le> truncate_toward_zero x) = (- 1 < x)"
proof (cases "x < 0")
  case True
  then have "(0 \<le> truncate_toward_zero x) = (\<lfloor>- x\<rfloor> \<le> 0)"
    by (simp add: truncate_toward_zero_def)
  also have "\<dots> = (- x < 1)" by (simp add: floor_le_iff)
  finally show ?thesis by auto
next
  case False
  then show ?thesis by (simp add: truncate_toward_zero_def)
qed

lemma truncate_toward_zero_le:
  "0 \<le> m \<Longrightarrow> (truncate_toward_zero x \<le> m) = (x < of_int m + 1)"
proof (cases "x < 0")
  case True
  assume "0 \<le> m"
  from True have "0 \<le> \<lfloor>- x\<rfloor>" by simp
  with \<open>0 \<le> m\<close> have "- \<lfloor>- x\<rfloor> \<le> m" by linarith
  with True have "truncate_toward_zero x \<le> m"
    by (simp add: truncate_toward_zero_def)
  moreover from True \<open>0 \<le> m\<close> have "x < of_int m + 1" by simp
  ultimately show ?thesis by simp
next
  case False
  then show ?thesis by (simp add: truncate_toward_zero_def floor_le_iff)
qed

lemma repeat_number_returns:
  "(\<exists>spaces. repeat_number (Some max_string_length) ''  '' indent = Inr spaces) =
     (indent = NaN \<or> (\<exists>x. indent = Finite x \<and> - 1 < x \<and> x < 268435445))"
proof (cases indent)
  case (Finite x)
  have "(\<exists>spaces. repeat (Some max_string_length) ''  '' (truncate_toward_zero x) = Inr spaces) =
      (0 \<le> truncate_toward_zero x \<and> truncate_toward_zero x \<le> 268435444)"
    unfolding repeat_spaces by (auto simp: max_string_length_def)
  also have "\<dots> = (- 1 < x \<and> x < 268435445)"
    using truncate_toward_zero_le [of 268435444 x]
    by (simp add: truncate_toward_zero_nonneg)
  finally show ?thesis using Finite by (simp add: repeat_number_def)
next
  case NaN
  have "repeat (Some max_string_length) ''  '' 0 = Inr (pad 0)"
    unfolding repeat_spaces by (simp add: max_string_length_def)
  with NaN show ?thesis by (simp add: repeat_number_def)
next
  case PosInfinity
  then show ?thesis by (simp add: repeat_number_def)
next
  case NegInfinity
  then show ?thesis by (simp add: repeat_number_def)
qed

lemma formatAST_number_of_int: "formatAST_number ast (Finite (of_int k)) = formatAST ast k"
  by (simp add: formatAST_number_def formatAST_def repeat_number_def)

section \<open>The claims\<close>

text \<open>
  C1, as amended. On every input on which the nesting depth goes negative,
  \<^verbatim>\<open>formatAST\<close> does not return: \<^verbatim>\<open>'  '.repeat(depth)\<close> is called with a negative
  count at the closing parenthesis that takes the depth below zero and throws a
  \<^verbatim>\<open>RangeError\<close>. No malformed, negatively indented string is produced.
\<close>

theorem formatAST_underflow_raises:
  "underflows ast \<Longrightarrow> formatAST ast indent = Inl RangeError"
proof -
  assume "underflows ast"
  then have "emit_from False 0 ast = Inl RangeError"
    by (simp add: emit_from_fails underflows_under)
  then show ?thesis by (simp add: formatAST_emit_from)
qed

theorem formatAST_underflow_witness:
  "underflows ''(a))'' \<and> formatAST ''(a))'' 0 = Inl RangeError"
proof -
  have u: "underflows ''(a))''" by (simp add: underflows_under under_Cons)
  with formatAST_underflow_raises [of "''(a))''" 0] show ?thesis by simp
qed

text \<open>
  The claim as first stated, that the function completes on such an input and returns a
  negatively indented string, fails on \<^verbatim>\<open>")"\<close>: the depth goes negative there and
  the call throws.
\<close>

theorem formatAST_underflow_counterexample:
  "underflows '')'' \<and> formatAST '')'' 0 = Inl RangeError"
  by code_simp

text \<open>
  C2, as amended. For every balanced string \<open>s\<close>, \<^verbatim>\<open>formatAST\<close> returns, and deleting
  from its output every line break and indentation run that it inserted gives \<open>s\<close>
  without its separator spaces: every space of \<open>s\<close> is missing, except one that directly
  follows a line break of \<open>s\<close>. For \<open>s\<close> without line breaks that is \<open>s\<close> with all
  spaces deleted, and \<open>s\<close> itself is reproduced when it has no space.
\<close>

theorem deleting_inserted:
  assumes "balanced s"
  shows "\<exists>out. formatAST_traced s 0 = Inr out \<and> formatAST s 0 = Inr (map snd out) \<and>
    copied out = unseparated False s \<and>
    (CHR ''\<newline>'' \<notin> set s \<longrightarrow> copied out = filter (\<lambda>c. c \<noteq> CHR '' '') s) \<and>
    (CHR '' '' \<notin> set s \<longrightarrow> copied out = s)"
proof -
  from assms have "\<not> underflows s" by (simp add: balanced_def)
  from emit_from_returns [OF this] obtain out
    where out: "emit_from False 0 s = Inr (depth_of s, out)" ..
  then have c: "copied out = unseparated False s" by (rule emit_from_copied)
  from out have "formatAST_traced s 0 = Inr out" "formatAST s 0 = Inr (map snd out)"
    by (simp_all add: formatAST_traced_zero formatAST_zero)
  with c show ?thesis
    by (auto simp: unseparated_no_space unseparated_no_newline)
qed

theorem deleting_inserted_witness:
  "balanced ''(a (b))'' \<and>
   (\<exists>out. formatAST_traced ''(a (b))'' 0 = Inr out \<and> copied out = ''(a(b))'')"
proof -
  have b: "balanced ''(a (b))''"
    by (simp add: balanced_def depth_of_def underflows_under under_Cons)
  from deleting_inserted [OF b] show ?thesis using b by auto
qed

text \<open>
  The claim as first stated, that the deletion reproduces \<open>s\<close> exactly, fails on the
  balanced string \<^verbatim>\<open>"(a b)"\<close>: its space is replaced by the inserted break, and
  deleting what was inserted leaves \<^verbatim>\<open>"(ab)"\<close>.
\<close>

theorem deleting_inserted_counterexample:
  "balanced ''(a b)'' \<and>
   map_sum id copied (formatAST_traced ''(a b)'' 0) = Inr ''(ab)'' \<and>
   ''(ab)'' \<noteq> ''(a b)''"
proof -
  have b: "balanced ''(a b)''"
    by (simp add: balanced_def depth_of_def underflows_under under_Cons)
  have "formatAST_traced ''(a b)'' 0 =
    Inr [(Copied, CHR ''(''), (Inserted, CHR ''\<newline>''), (Inserted, CHR '' ''),
         (Inserted, CHR '' ''), (Copied, CHR ''a''), (Inserted, CHR ''\<newline>''),
         (Inserted, CHR '' ''), (Inserted, CHR '' ''), (Copied, CHR ''b''),
         (Inserted, CHR ''\<newline>''), (Copied, CHR '')'')]"
    by code_simp
  with b show ?thesis by simp
qed

text \<open>
  C3. For every string \<open>s\<close> in the format of section 3, \<^verbatim>\<open>formatAST\<close> returns, every
  parenthesis of \<open>s\<close> is in the output (the counts agree), and every line of the output
  with a parenthesis in it consists of the indentation prefix of its depth and that one
  parenthesis.
\<close>

theorem parens_on_own_lines:
  assumes "sexp_format s"
  shows "\<exists>out. formatAST s 0 = Inr out \<and> own_lines 0 (lines_of out) \<and>
    count_list out CHR ''('' = count_list s CHR ''('' \<and>
    count_list out CHR '')'' = count_list s CHR '')''"
proof -
  from assms have u: "\<not> underflows s" and sep: "separated None s"
    by (simp_all add: sexp_format_def balanced_def)
  from emit_from_returns [OF u] obtain out
    where out: "emit_from False 0 s = Inr (depth_of s, out)" ..
  have "line_ok None 0 []" by (simp add: line_ok_def pad_def)
  from emit_from_own_lines [OF out _ _ sep this]
  have "own_lines 0 (lines_of (map snd out))" by (simp add: lines_of_def)
  moreover from out have f: "formatAST s 0 = Inr (map snd out)"
    by (simp add: formatAST_zero)
  moreover from f have "count_list (map snd out) CHR ''('' = count_list s CHR ''(''"
    "count_list (map snd out) CHR '')'' = count_list s CHR '')''"
    by (simp_all add: formatAST_count)
  ultimately show ?thesis by simp
qed

theorem parens_on_own_lines_witness:
  "sexp_format ''(call fn: (id) (args (n)))'' \<and>
   (\<exists>out. formatAST ''(call fn: (id) (args (n)))'' 0 = Inr out \<and> own_lines 0 (lines_of out))"
proof -
  have "sexp_format ''(call fn: (id) (args (n)))''"
    by (simp add: sexp_format_def balanced_def depth_of_def underflows_under under_Cons)
  from this parens_on_own_lines [OF this] show ?thesis by auto
qed

text \<open>
  C4, as amended. At every position that the scan of \<open>ast\<close> reaches and that holds a
  space which is at position 0 or not directly preceded by a line break in the input,
  the body appends a line break and the indentation prefix of the current depth, and the
  scan goes on at the first position after the run of spaces that starts there; the
  depth does not change.
\<close>

theorem space_break:
  assumes "visits ast i depth result" and "i < length ast" and "ast ! i = CHR '' ''"
    and "i = 0 \<or> ast ! (i - 1) \<noteq> CHR ''\<newline>''"
  shows "body ast i depth result =
      Inr (skip_spaces ast i - 1, depth, result @ [CHR ''\<newline>''] @ pad depth) \<and>
    visits ast (skip_spaces ast i) depth (result @ [CHR ''\<newline>''] @ pad depth) \<and>
    i < skip_spaces ast i \<and> skip_spaces ast i \<le> length ast \<and>
    (\<forall>j. i \<le> j \<and> j < skip_spaces ast i \<longrightarrow> ast ! j = CHR '' '') \<and>
    (skip_spaces ast i < length ast \<longrightarrow> ast ! skip_spaces ast i \<noteq> CHR '' '')"
proof -
  from assms(1) have "0 \<le> depth" by (rule visits_depth)
  with assms(3,4) have b: "body ast i depth result =
      Inr (skip_spaces ast i - 1, depth, result @ [CHR ''\<newline>''] @ pad depth)"
    by (auto simp: body_def Let_def repeat_pad)
  from assms(2,3) have gt: "i < skip_spaces ast i" by (rule skip_spaces_gt)
  from visits.step [OF assms(1,2) b] gt
  have "visits ast (skip_spaces ast i) depth (result @ [CHR ''\<newline>''] @ pad depth)"
    by simp
  moreover from assms(2) have "skip_spaces ast i \<le> length ast"
    by (simp add: skip_spaces_le)
  ultimately show ?thesis
    using b gt by (auto simp: skip_spaces_run skip_spaces_stop)
qed

theorem space_break_witness:
  "visits ''a   b'' 1 0 ''a'' \<and> body ''a   b'' 1 0 ''a'' = Inr (3, 0, ''a\<newline>'') \<and>
   visits ''a   b'' 4 0 ''a\<newline>'' \<and> skip_spaces ''a   b'' 1 = 4"
proof -
  have "body ''a   b'' 0 0 [] = Inr (0, 0, ''a'')" by code_simp
  from visits.step [OF visits.start _ this] have v: "visits ''a   b'' 1 0 ''a''" by simp
  have s: "skip_spaces ''a   b'' 1 = 4" by code_simp
  from space_break [OF v] s v show ?thesis by (simp add: pad_def)
qed

text \<open>
  The claim as first stated excepts only a space that follows a line break inserted by
  the formatter. It fails on the input \<open>a\<close>, line break, space, \<open>b\<close>: the scan reaches
  the space at position 2 with a result that ends in the line break copied from the
  input, and copies the space; nothing in the output is inserted, so no break is
  emitted for that space. The guard of the source reads the input, \<^verbatim>\<open>ast[i - 1]\<close>.
\<close>

theorem space_break_counterexample:
  "formatAST_traced ''a\<newline> b'' 0 =
     Inr [(Copied, CHR ''a''), (Copied, CHR ''\<newline>''), (Copied, CHR '' ''),
          (Copied, CHR ''b'')] \<and>
   ''a\<newline> b'' ! 2 = CHR '' '' \<and>
   visits ''a\<newline> b'' 2 0 ''a\<newline>'' \<and>
   body ''a\<newline> b'' 2 0 ''a\<newline>'' = Inr (2, 0, ''a\<newline> '')"
proof -
  have 0: "body ''a\<newline> b'' 0 0 [] = Inr (0, 0, ''a'')" by code_simp
  have 1: "body ''a\<newline> b'' 1 0 ''a'' = Inr (1, 0, ''a\<newline>'')" by code_simp
  from visits.step [OF visits.start _ 0] have "visits ''a\<newline> b'' 1 0 ''a''" by simp
  from visits.step [OF this _ 1] have v: "visits ''a\<newline> b'' 2 0 ''a\<newline>''"
    by (simp add: numeral_2_eq_2)
  have b: "body ''a\<newline> b'' 2 0 ''a\<newline>'' = Inr (2, 0, ''a\<newline> '')"
    by code_simp
  have f: "formatAST_traced ''a\<newline> b'' 0 =
     Inr [(Copied, CHR ''a''), (Copied, CHR ''\<newline>''), (Copied, CHR '' ''),
          (Copied, CHR ''b'')]"
    by code_simp
  from f v b show ?thesis by simp
qed

text \<open>
  C5. When \<^verbatim>\<open>formatAST\<close> returns, the characters of its output that are not whitespace
  are those of the input, in the same order. Whitespace is any set \<open>W\<close> of characters
  that holds the space and the line break.
\<close>

theorem nonwhitespace_preserved:
  assumes "CHR '' '' \<in> W" and "CHR ''\<newline>'' \<in> W" and "formatAST ast indent = Inr out"
  shows "filter (\<lambda>c. c \<notin> W) out = filter (\<lambda>c. c \<notin> W) ast"
  using assms by (intro formatAST_filter [of _ ast indent]) simp_all

theorem nonwhitespace_preserved_witness:
  "CHR '' '' \<in> {CHR '' '', CHR ''\<newline>'', CHR 0x09} \<and>
   CHR ''\<newline>'' \<in> {CHR '' '', CHR ''\<newline>'', CHR 0x09} \<and>
   formatAST ''(a  (b c))'' 0 = Inr ''(\<newline>  a\<newline>  (\<newline>    b\<newline>    c\<newline>  )\<newline>)'' \<and>
   filter (\<lambda>c. c \<notin> {CHR '' '', CHR ''\<newline>'', CHR 0x09})
     ''(\<newline>  a\<newline>  (\<newline>    b\<newline>    c\<newline>  )\<newline>)'' =
   filter (\<lambda>c. c \<notin> {CHR '' '', CHR ''\<newline>'', CHR 0x09}) ''(a  (b c))''"
proof -
  have f: "formatAST ''(a  (b c))'' 0 =
      Inr ''(\<newline>  a\<newline>  (\<newline>    b\<newline>    c\<newline>  )\<newline>)''"
    by code_simp
  have "CHR '' '' \<in> {CHR '' '', CHR ''\<newline>'', CHR 0x09}"
    "CHR ''\<newline>'' \<in> {CHR '' '', CHR ''\<newline>'', CHR 0x09}" by simp_all
  from nonwhitespace_preserved [OF this f] f show ?thesis by simp
qed

text \<open>
  C6, as amended. For every input on which the depth never goes negative,
  \<^verbatim>\<open>formatAST\<close> returns a string with as many opening parentheses as the input and
  as many closing ones. That holds for the call with one argument (\<open>indent = 0\<close>) and
  for every \<open>indent\<close> from which the prefix \<^verbatim>\<open>spaces\<close> can be built.
\<close>

theorem paren_counts_preserved:
  assumes "\<not> underflows ast" and "0 \<le> indent" and "2 * indent \<le> max_string_length"
  shows "\<exists>out. formatAST ast indent = Inr out \<and>
    count_list out CHR ''('' = count_list ast CHR ''('' \<and>
    count_list out CHR '')'' = count_list ast CHR '')''"
proof -
  from formatAST_returns [OF assms] obtain out
    where out: "formatAST ast indent = Inr out" ..
  then have "count_list out CHR ''('' = count_list ast CHR ''(''"
    and "count_list out CHR '')'' = count_list ast CHR '')''"
    by (simp_all add: formatAST_count)
  with out show ?thesis by simp
qed

theorem paren_counts_preserved_witness:
  "\<not> underflows ''(a (b'' \<and> (0::int) \<le> 0 \<and> 2 * 0 \<le> max_string_length \<and>
   (\<exists>out. formatAST ''(a (b'' 0 = Inr out \<and>
    count_list out CHR ''('' = count_list ''(a (b'' CHR ''('' \<and>
    count_list out CHR '')'' = count_list ''(a (b'' CHR '')'')"
proof -
  have u: "\<not> underflows ''(a (b''" by (simp add: underflows_under under_Cons)
  with paren_counts_preserved [of "''(a (b''" 0] show ?thesis
    by (simp add: max_string_length_def)
qed

text \<open>
  The claim as first stated is about every input. It fails on \<^verbatim>\<open>")("\<close>, which has
  one parenthesis of each kind and on which the call throws: there is no output.
\<close>

theorem paren_counts_preserved_counterexample:
  "count_list '')('' CHR ''('' = 1 \<and> count_list '')('' CHR '')'' = 1 \<and>
   formatAST '')('' 0 = Inl RangeError"
  by code_simp

text \<open>
  C7. The depth counter starts at 0, and whenever the loop stands at an index \<open>i\<close> it
  is the number of opening parentheses minus the number of closing ones among the first
  \<open>i\<close> characters: each \<^verbatim>\<open>(\<close> has raised it by one and each \<^verbatim>\<open>)\<close> has lowered it
  by one. On an input on which the depth never goes negative the loop ends, without an
  exception, with the counter at the depth of the whole input; on a balanced input that
  is 0.
\<close>

theorem depth_returns_to_zero:
  "(\<forall>i depth result. visits ast i depth result \<longrightarrow> depth = depth_of (take i ast)) \<and>
   (\<not> underflows ast \<longrightarrow> (\<exists>result. loop ast 0 0 [] = Inr (depth_of ast, result))) \<and>
   (balanced ast \<longrightarrow> (\<exists>result. loop ast 0 0 [] = Inr (0, result)))"
proof (intro conjI allI impI)
  fix i depth result
  assume "visits ast i depth result"
  then show "depth = depth_of (take i ast)" by (simp add: visits_depth_of)
next
  assume "\<not> underflows ast"
  with emit_from_returns [of ast]
  show "\<exists>result. loop ast 0 0 [] = Inr (depth_of ast, result)"
    by (auto simp: loop_emit_from)
next
  assume "balanced ast"
  then have "depth_of ast = 0" "\<not> underflows ast" by (simp_all add: balanced_def)
  with emit_from_returns [of ast]
  show "\<exists>result. loop ast 0 0 [] = Inr (0, result)"
    by (auto simp: loop_emit_from)
qed

theorem depth_returns_to_zero_witness:
  "visits ''(a (b'' 1 1 ''(\<newline>  '' \<and> depth_of (take 1 ''(a (b'') = 1 \<and>
   \<not> underflows ''(a (b'' \<and> depth_of ''(a (b'' = 2 \<and>
   (\<exists>result. loop ''(a (b'' 0 0 [] = Inr (2, result)) \<and>
   balanced ''(a (b))'' \<and> (\<exists>result. loop ''(a (b))'' 0 0 [] = Inr (0, result))"
proof -
  have "body ''(a (b'' 0 0 [] = Inr (0, 1, ''(\<newline>  '')" by code_simp
  from visits.step [OF visits.start _ this]
  have v: "visits ''(a (b'' 1 1 ''(\<newline>  ''" by simp
  have u: "\<not> underflows ''(a (b''" by (simp add: underflows_under under_Cons)
  have d: "depth_of ''(a (b'' = 2" by (simp add: depth_of_def)
  have b: "balanced ''(a (b))''"
    by (simp add: balanced_def depth_of_def underflows_under under_Cons)
  from depth_returns_to_zero [of "''(a (b''"]
  have all: "\<forall>i depth result. visits ''(a (b'' i depth result \<longrightarrow>
      depth = depth_of (take i ''(a (b'')"
    and ret: "\<not> underflows ''(a (b'' \<longrightarrow>
      (\<exists>result. loop ''(a (b'' 0 0 [] = Inr (depth_of ''(a (b'', result))"
    by blast+
  from all v have "depth_of (take 1 ''(a (b'') = 1" by fastforce
  moreover from ret u d have "\<exists>result. loop ''(a (b'' 0 0 [] = Inr (2, result)"
    by simp
  moreover from depth_returns_to_zero [of "''(a (b))''"] b
  have "\<exists>result. loop ''(a (b))'' 0 0 [] = Inr (0, result)" by blast
  ultimately show ?thesis using v u d b by simp
qed

text \<open>
  C8. On \<^verbatim>\<open>"(a (b) (c d))"\<close> the output has ten lines: \<open>a\<close> at level 1, the subtrees
  \<open>(b)\<close> and \<open>(c d)\<close> opening at level 1 with \<open>b\<close>, \<open>c\<close> and \<open>d\<close> at level 2, and one
  break between \<open>c\<close> and \<open>d\<close>, also when several spaces separate them.
\<close>

theorem formatAST_example:
  "formatAST ''(a (b) (c d))'' 0 =
     Inr ''(\<newline>  a\<newline>  (\<newline>    b\<newline>  )\<newline>  (\<newline>    c\<newline>    d\<newline>  )\<newline>)'' \<and>
   map_sum id lines_of (formatAST ''(a (b) (c d))'' 0) =
     Inr [pad 0 @ ''('', pad 1 @ ''a'', pad 1 @ ''('', pad 2 @ ''b'', pad 1 @ '')'',
          pad 1 @ ''('', pad 2 @ ''c'', pad 2 @ ''d'', pad 1 @ '')'', pad 0 @ '')''] \<and>
   formatAST ''(a (b) (c    d))'' 0 = formatAST ''(a (b) (c d))'' 0"
proof -
  have 1: "formatAST ''(a (b) (c d))'' 0 =
     Inr ''(\<newline>  a\<newline>  (\<newline>    b\<newline>  )\<newline>  (\<newline>    c\<newline>    d\<newline>  )\<newline>)''"
    by code_simp
  have 2: "formatAST ''(a (b) (c    d))'' 0 =
     Inr ''(\<newline>  a\<newline>  (\<newline>    b\<newline>  )\<newline>  (\<newline>    c\<newline>    d\<newline>  )\<newline>)''"
    by code_simp
  have 3: "lines_of ''(\<newline>  a\<newline>  (\<newline>    b\<newline>  )\<newline>  (\<newline>    c\<newline>    d\<newline>  )\<newline>)'' =
     [pad 0 @ ''('', pad 1 @ ''a'', pad 1 @ ''('', pad 2 @ ''b'', pad 1 @ '')'',
      pad 1 @ ''('', pad 2 @ ''c'', pad 2 @ ''d'', pad 1 @ '')'', pad 0 @ '')'']"
    by code_simp
  from 1 2 3 show ?thesis by simp
qed

text \<open>
  C9, as amended. For every input and every number \<open>indent\<close> that is \<^verbatim>\<open>NaN\<close> or is
  finite, above \<open>- 1\<close> and below 268435445, \<^verbatim>\<open>formatAST(ast, indent)\<close> is
  \<^verbatim>\<open>formatAST(ast, 0)\<close>: these are the numbers from which the prefix \<^verbatim>\<open>spaces\<close>,
  which is never used, can be built. For every other number (one that is \<open>- 1\<close> or
  less, or 268435445 or more, or an infinity) the call throws a \<^verbatim>\<open>RangeError\<close>.
  The call with a number that is an integer is the function \<open>formatAST\<close> above.
\<close>

theorem indent_unused:
  "(indent = NaN \<or> (\<exists>x. indent = Finite x \<and> - 1 < x \<and> x < 268435445) \<longrightarrow>
      formatAST_number ast indent = formatAST ast 0) \<and>
   (\<not> (indent = NaN \<or> (\<exists>x. indent = Finite x \<and> - 1 < x \<and> x < 268435445)) \<longrightarrow>
      formatAST_number ast indent = Inl RangeError) \<and>
   formatAST_number ast (Finite (of_int k)) = formatAST ast k"
proof (intro conjI impI)
  assume "indent = NaN \<or> (\<exists>x. indent = Finite x \<and> - 1 < x \<and> x < 268435445)"
  then have "\<exists>spaces. repeat_number (Some max_string_length) ''  '' indent = Inr spaces"
    by (simp add: repeat_number_returns)
  moreover have "repeat (Some max_string_length) ''  '' 0 = Inr (pad 0)"
    unfolding repeat_spaces by (simp add: max_string_length_def)
  ultimately show "formatAST_number ast indent = formatAST ast 0"
    by (auto simp: formatAST_number_def formatAST_def)
next
  assume "\<not> (indent = NaN \<or> (\<exists>x. indent = Finite x \<and> - 1 < x \<and> x < 268435445))"
  then have "\<not> (\<exists>spaces. repeat_number (Some max_string_length) ''  '' indent = Inr spaces)"
    by (simp add: repeat_number_returns)
  then show "formatAST_number ast indent = Inl RangeError"
    by (cases "repeat_number (Some max_string_length) ''  '' indent")
      (simp_all add: formatAST_number_def error_is_RangeError)
next
  show "formatAST_number ast (Finite (of_int k)) = formatAST ast k"
    by (rule formatAST_number_of_int)
qed

theorem indent_unused_witness:
  "formatAST_number ''(a)'' (Finite 1.5) = formatAST ''(a)'' 0 \<and>
   formatAST_number ''(a)'' (Finite (- 0.5)) = formatAST ''(a)'' 0 \<and>
   formatAST_number ''(a)'' NaN = formatAST ''(a)'' 0 \<and>
   formatAST_number ''(a)'' (Finite 268435444) = formatAST ''(a)'' 0 \<and>
   formatAST_number ''(a)'' (Finite 268435445) = Inl RangeError \<and>
   formatAST_number ''(a)'' PosInfinity = Inl RangeError \<and>
   formatAST ''(a)'' 268435445 = Inl RangeError \<and>
   formatAST ''(a)'' 0 = Inr ''(\<newline>  a\<newline>)''"
proof -
  have same: "formatAST_number ''(a)'' (Finite x) = formatAST ''(a)'' 0"
    if "- 1 < x" and "x < 268435445" for x
  proof -
    from that have "Finite x = NaN \<or> (\<exists>y. Finite x = Finite y \<and> - 1 < y \<and> y < 268435445)"
      by blast
    with indent_unused [of "Finite x" "''(a)''"] show ?thesis by blast
  qed
  have throws: "formatAST_number ''(a)'' (Finite x) = Inl RangeError"
    if "268435445 \<le> x" for x
  proof -
    from that
    have "\<not> (Finite x = NaN \<or> (\<exists>y. Finite x = Finite y \<and> - 1 < y \<and> y < 268435445))"
      by simp
    with indent_unused [of "Finite x" "''(a)''"] show ?thesis by blast
  qed
  have 1: "formatAST_number ''(a)'' (Finite 1.5) = formatAST ''(a)'' 0"
    by (rule same) simp_all
  have 2: "formatAST_number ''(a)'' (Finite (- 0.5)) = formatAST ''(a)'' 0"
    by (rule same) simp_all
  have 3: "formatAST_number ''(a)'' NaN = formatAST ''(a)'' 0"
    using indent_unused [of NaN "''(a)''"] by blast
  have 4: "formatAST_number ''(a)'' (Finite 268435444) = formatAST ''(a)'' 0"
    by (rule same) simp_all
  have 5: "formatAST_number ''(a)'' (Finite 268435445) = Inl RangeError"
    by (rule throws) simp
  have 6: "formatAST_number ''(a)'' PosInfinity = Inl RangeError"
    using indent_unused [of PosInfinity "''(a)''"] by simp
  have "formatAST_number ''(a)'' (Finite (of_int 268435445)) = formatAST ''(a)'' 268435445"
    using indent_unused [of NaN "''(a)''" 268435445] by blast
  with 5 have 7: "formatAST ''(a)'' 268435445 = Inl RangeError" by simp
  have 8: "formatAST ''(a)'' 0 = Inr ''(\<newline>  a\<newline>)''" by code_simp
  from 1 2 3 4 5 6 7 8 show ?thesis by blast
qed

text \<open>
  The claim as first stated is about every value of the parameter. It fails at \<open>- 1\<close>:
  the prefix that is never used is still computed, and \<^verbatim>\<open>'  '.repeat(-1)\<close> throws.
\<close>

theorem indent_unused_counterexample:
  "formatAST ''(a)'' (- 1) = Inl RangeError \<and>
   formatAST_number ''(a)'' (Finite (- 1)) = Inl RangeError \<and>
   formatAST ''(a)'' 0 = Inr ''(\<newline>  a\<newline>)''"
proof -
  have 1: "formatAST ''(a)'' (- 1) = Inl RangeError" by code_simp
  have "formatAST_number ''(a)'' (Finite (of_int (- 1))) = formatAST ''(a)'' (- 1)"
    by (rule formatAST_number_of_int)
  with 1 have 2: "formatAST_number ''(a)'' (Finite (- 1)) = Inl RangeError" by simp
  have 3: "formatAST ''(a)'' 0 = Inr ''(\<newline>  a\<newline>)''" by code_simp
  from 1 2 3 show ?thesis by blast
qed

text \<open>
  C10, as amended. For every input that starts with a space and on which the depth
  never goes negative, \<^verbatim>\<open>formatAST\<close> returns a string that starts with a line break.
  That holds for the call with one argument (\<open>indent = 0\<close>) and for every \<open>indent\<close>
  from which the prefix \<^verbatim>\<open>spaces\<close> can be built.
\<close>

theorem leading_space_breaks:
  assumes "\<not> underflows (CHR '' '' # ast)" and "0 \<le> indent"
    and "2 * indent \<le> max_string_length"
  shows "\<exists>out. formatAST (CHR '' '' # ast) indent = Inr (CHR ''\<newline>'' # out)"
proof -
  from formatAST_returns [OF assms] obtain out
    where out: "formatAST (CHR '' '' # ast) indent = Inr out" ..
  with assms(2,3) have "\<exists>out'. out = CHR ''\<newline>'' # out'"
    by (auto simp: formatAST_emit_from split: if_splits sum.splits prod.splits)
  with out show ?thesis by auto
qed

theorem leading_space_breaks_witness:
  "\<not> underflows '' (a)'' \<and> (0::int) \<le> 0 \<and> 2 * 0 \<le> max_string_length \<and>
   (\<exists>out. formatAST '' (a)'' 0 = Inr (CHR ''\<newline>'' # out))"
proof -
  have u: "\<not> underflows '' (a)''" by (simp add: underflows_under under_Cons)
  with leading_space_breaks [of "''(a)''" 0] show ?thesis
    by (simp add: max_string_length_def)
qed

text \<open>
  The claim as first stated is about every input that starts with a space. It fails on
  a space followed by a closing parenthesis: the break is appended, but the call throws
  at the parenthesis and there is no output.
\<close>

theorem leading_space_breaks_counterexample:
  "hd '' )'' = CHR '' '' \<and> formatAST '' )'' 0 = Inl RangeError"
  by code_simp

end
